theory Spec2Isabelle
  imports Main "HOL-Library.Word"
begin

section \<open>The job registry (package job, registry file)\<close>

text \<open>
  \<^verbatim>\<open>type Registry struct {}\<close> has no field, so it has a single value.
  \<^verbatim>\<open>func (r *Registry) Servers() []transport.Server { return []transport.Server{} }\<close>
  builds a fresh empty slice on every call. The element type \<open>transport.Server\<close> is an
  interface of the framework; it is a type parameter here.
\<close>

datatype Registry = Registry

definition Servers :: "Registry \<Rightarrow> 'server list" where
  "Servers r = []"

section \<open>The ticker job: data\<close>

text \<open>
  \<open>stopCh\<close> is a \<^verbatim>\<open>chan struct{}\<close> on which nothing is ever sent: the only
  operation the code performs on it is \<open>close\<close>, and the only thing the loop observes is
  whether a receive can proceed, which is the case exactly when it is closed.
  Closing a closed channel is a run-time panic in Go; \<open>None\<close> is that panic.
\<close>

datatype chan = Open | Closed

definition close :: "chan \<Rightarrow> chan option" where
  "close c = (case c of Open \<Rightarrow> Some Closed | Closed \<Rightarrow> None)"

text \<open>The two cancellation errors of package \<open>context\<close>; \<open>nil\<close> is \<open>None\<close>.\<close>

datatype error = Canceled | DeadlineExceeded

text \<open>\<open>log.NewHelper(logger)\<close> wraps the logger it is given.\<close>

datatype 'l helper = NewHelper 'l

text \<open>
  \<^verbatim>\<open>type TickerJob struct\<close>. \<open>time.Duration\<close> is an \<open>int64\<close> count of nanoseconds.
  \<open>executeFn\<close> is a function value; \<open>None\<close> is the \<open>nil\<close> function. What the action
  does is opaque to the job, so its type is a parameter. \<open>stopOnce\<close> is the done flag of
  the \<open>sync.Once\<close>, \<open>wg\<close> the counter of the \<open>sync.WaitGroup\<close>.
\<close>

record ('l, 'f) TickerJob =
  name :: string
  log :: "'l helper"
  interval :: "64 word"
  stopCh :: chan
  stopOnce :: bool
  executeImmediate :: bool
  executeFn :: "'f option"
  wg :: int

definition newTickerJob ::
  "string \<Rightarrow> 64 word \<Rightarrow> 'l \<Rightarrow> 'f option \<Rightarrow> bool \<Rightarrow> ('l, 'f) TickerJob" where
  "newTickerJob nm iv logger fn immediate =
     \<lparr> name = nm,
       log = NewHelper logger,
       interval = iv,
       stopCh = Open,
       stopOnce = False,
       executeImmediate = immediate,
       executeFn = fn,
       wg = 0 \<rparr>"

section \<open>Stop\<close>

text \<open>
  \<^verbatim>\<open>j.stopOnce.Do(func() { close(j.stopCh) }); return nil\<close>.
  \<open>sync.Once.Do\<close> runs its argument only if the once has not fired, and marks it fired;
  it holds a mutex while it does so, which makes the whole call one atomic step for
  every other caller. The result is \<open>None\<close> when the call panics, otherwise the job
  after the call and the error returned.
\<close>

definition Stop :: "('l, 'f) TickerJob \<Rightarrow> (('l, 'f) TickerJob \<times> error option) option" where
  "Stop j =
     (if stopOnce j then Some (j, None)
      else (case close (stopCh j) of
              None \<Rightarrow> None
            | Some c \<Rightarrow> Some (j\<lparr>stopCh := c, stopOnce := True\<rparr>, None)))"

section \<open>Start as a transition system\<close>

text \<open>
  \<open>sync.WaitGroup\<close>: \<open>Add\<close> changes the counter and panics when it becomes negative,
  \<open>Done\<close> is \<open>Add(-1)\<close>, \<open>Wait\<close> blocks until the counter is zero.
\<close>

definition wg_Add :: "int \<Rightarrow> int \<Rightarrow> int option" where
  "wg_Add delta c = (if c + delta < 0 then None else Some (c + delta))"

definition wg_Done :: "int \<Rightarrow> int option" where
  "wg_Done c = wg_Add (- 1) c"

text \<open>
  The control points of the thread that runs \<open>Start\<close>:
  \<^item> \<open>NotStarted\<close>: \<open>Start\<close> has not been called;
  \<^item> \<open>Spawned\<close>: after the \<open>if j.executeImmediate\<close> block, before \<open>time.NewTicker\<close>;
  \<^item> \<open>Selecting\<close>: blocked in the \<open>select\<close>;
  \<^item> \<open>Ticking\<close>: inside \<open>j.executeFn(ctx)\<close> of the \<open>case <-ticker.C\<close> branch;
  \<^item> \<open>Waiting c\<close>: in \<open>j.wg.Wait()\<close> of the branch \<open>c\<close>;
  \<^item> \<open>Returned c r\<close>: returned \<open>r\<close> from the branch \<open>c\<close>;
  \<^item> \<open>Panicked\<close>: an unrecovered panic has ended the process.
\<close>

datatype cause = ByCtx | ByStop

datatype control = NotStarted | Spawned | Selecting | Ticking | Waiting cause
  | Returned cause "error option" | Panicked

text \<open>The goroutine of the immediate execution: not created, created, running the
  action, finished.\<close>

datatype goroutine = NoGo | Ready | Running | Finished

text \<open>
  The state of one job and its surroundings. \<open>ctxErr\<close> is what \<open>ctx.Err()\<close> returns;
  \<open>ctx.Done()\<close> is closed exactly when it is not \<open>nil\<close>. \<open>tickerC\<close> is the number of
  values waiting in \<open>ticker.C\<close>.

  The remaining fields are history variables: no guard reads them. \<open>fired\<close> counts the
  elapses of the interval timer, \<open>immCalls\<close> and \<open>tickCalls\<close> the calls of \<open>executeFn\<close>
  from the goroutine and from the loop, \<open>immReturns\<close> and \<open>tickReturns\<close> their returns,
  \<open>closes\<close> the executions of \<open>close(j.stopCh)\<close>, and \<open>stopRets\<close> lists what each call
  of \<open>Stop\<close> returned.
\<close>

record ('l, 'f) sys =
  job :: "('l, 'f) TickerJob"
  ctxErr :: "error option"
  pc :: control
  imm :: goroutine
  tickerC :: nat
  fired :: nat
  immCalls :: nat
  tickCalls :: nat
  immReturns :: nat
  tickReturns :: nat
  closes :: nat
  stopRets :: "error option list"

definition boot :: "('l, 'f) TickerJob \<Rightarrow> ('l, 'f) sys" where
  "boot j = \<lparr> job = j, ctxErr = None, pc = NotStarted, imm = NoGo, tickerC = 0,
              fired = 0, immCalls = 0, tickCalls = 0, immReturns = 0, tickReturns = 0,
              closes = 0, stopRets = [] \<rparr>"

text \<open>
  What can happen next. The first three labels belong to the surroundings: some thread
  calls \<open>Stop\<close>, the owner of the context cancels it (or its deadline passes), the
  interval elapses. The others are steps of \<open>Start\<close> and of its goroutine.

  The action is opaque: an invocation begins (\<open>ImmEnter\<close>, \<open>SelTick\<close>) and, if the
  schedule lets it, returns (\<open>ImmReturn\<close>, \<open>TickReturn\<close>); whatever it does to the job
  in between is one of the labels of the surroundings. An action that panics by itself
  is outside the model, and \<open>Start\<close> is called at most once on a job.
\<close>

datatype label =
    CallStop
  | Cancel error
  | Elapse
  | StartEnter
  | ArmTicker
  | SelCtx
  | SelStop
  | SelTick
  | TickReturn
  | WaitReturn
  | ImmEnter
  | ImmReturn

text \<open>
  Modelled from the documentation of Go's package \<open>time\<close>, which is not part of this
  repository: \<open>NewTicker\<close> panics unless its duration is positive, and a ticker drops
  ticks for a slow receiver, its channel holding at most one value.
\<close>

definition ticker_cap :: nat where
  "ticker_cap = 1"

definition NewTicker_panics :: "64 word \<Rightarrow> bool" where
  "NewTicker_panics d = (sint d \<le> 0)"

text \<open>The ticker exists from \<open>time.NewTicker\<close> until the deferred \<open>ticker.Stop()\<close>.\<close>

definition armed :: "('l, 'f) sys \<Rightarrow> bool" where
  "armed s = (case pc s of Selecting \<Rightarrow> True | Ticking \<Rightarrow> True | Waiting c \<Rightarrow> True
              | _ \<Rightarrow> False)"

definition set_wg :: "int \<Rightarrow> ('l, 'f) sys \<Rightarrow> ('l, 'f) sys" where
  "set_wg c s = s\<lparr>job := (job s)\<lparr>wg := c\<rparr>\<rparr>"

text \<open>
  One step; \<open>None\<close> when the label cannot happen in the state. A process that has
  panicked takes no step.
\<close>

fun act :: "label \<Rightarrow> ('l, 'f) sys \<Rightarrow> ('l, 'f) sys option" where
  "act CallStop s =
     (case Stop (job s) of
        None \<Rightarrow> Some (s\<lparr>pc := Panicked\<rparr>)
      | Some (j', r) \<Rightarrow>
          Some (s\<lparr>job := j',
                  closes := closes s + (if stopCh j' = stopCh (job s) then 0 else 1),
                  stopRets := stopRets s @ [r]\<rparr>))"
| "act (Cancel e) s =
     (case ctxErr s of None \<Rightarrow> Some (s\<lparr>ctxErr := Some e\<rparr>) | Some e' \<Rightarrow> Some s)"
| "act Elapse s =
     (if armed s
      then Some (s\<lparr>fired := Suc (fired s),
                   tickerC := (if tickerC s < ticker_cap then Suc (tickerC s) else tickerC s)\<rparr>)
      else None)"
| "act StartEnter s =
     (if pc s = NotStarted
      then (if executeImmediate (job s)
            then (case wg_Add 1 (wg (job s)) of
                    None \<Rightarrow> Some (s\<lparr>pc := Panicked\<rparr>)
                  | Some c \<Rightarrow> Some ((set_wg c s)\<lparr>imm := Ready, pc := Spawned\<rparr>))
            else Some (s\<lparr>pc := Spawned\<rparr>))
      else None)"
| "act ArmTicker s =
     (if pc s = Spawned
      then (if NewTicker_panics (interval (job s)) then Some (s\<lparr>pc := Panicked\<rparr>)
            else Some (s\<lparr>pc := Selecting\<rparr>))
      else None)"
| "act SelCtx s =
     (if pc s = Selecting \<and> ctxErr s \<noteq> None then Some (s\<lparr>pc := Waiting ByCtx\<rparr>) else None)"
| "act SelStop s =
     (if pc s = Selecting \<and> stopCh (job s) = Closed then Some (s\<lparr>pc := Waiting ByStop\<rparr>)
      else None)"
| "act SelTick s =
     (if pc s = Selecting \<and> 0 < tickerC s
      then (case wg_Add 1 (wg (job s)) of
              None \<Rightarrow> Some (s\<lparr>pc := Panicked\<rparr>)
            | Some c \<Rightarrow>
               (case executeFn (job s) of
                  None \<Rightarrow> Some (s\<lparr>pc := Panicked\<rparr>)
                | Some f \<Rightarrow>
                    Some ((set_wg c s)\<lparr>tickerC := tickerC s - 1, pc := Ticking,
                                       tickCalls := Suc (tickCalls s)\<rparr>)))
      else None)"
| "act TickReturn s =
     (if pc s = Ticking
      then (case wg_Done (wg (job s)) of
              None \<Rightarrow> Some (s\<lparr>pc := Panicked\<rparr>)
            | Some c \<Rightarrow> Some ((set_wg c s)\<lparr>pc := Selecting, tickReturns := Suc (tickReturns s)\<rparr>))
      else None)"
| "act WaitReturn s =
     (case pc s of
        Waiting c \<Rightarrow>
          (if wg (job s) = 0
           then Some (s\<lparr>pc := Returned c (case c of ByCtx \<Rightarrow> ctxErr s | ByStop \<Rightarrow> None)\<rparr>)
           else None)
      | _ \<Rightarrow> None)"
| "act ImmEnter s =
     (if imm s = Ready
      then (case executeFn (job s) of
              None \<Rightarrow> Some (s\<lparr>pc := Panicked\<rparr>)
            | Some f \<Rightarrow> Some (s\<lparr>imm := Running, immCalls := Suc (immCalls s)\<rparr>))
      else None)"
| "act ImmReturn s =
     (if imm s = Running
      then (case wg_Done (wg (job s)) of
              None \<Rightarrow> Some (s\<lparr>pc := Panicked\<rparr>)
            | Some c \<Rightarrow> Some ((set_wg c s)\<lparr>imm := Finished, immReturns := Suc (immReturns s)\<rparr>))
      else None)"

definition step :: "label \<Rightarrow> ('l, 'f) sys \<Rightarrow> ('l, 'f) sys option" where
  "step l s = (if pc s = Panicked then None else act l s)"

text \<open>A finite schedule, run from a state; \<open>None\<close> if one of its labels cannot happen.\<close>

fun exec :: "label list \<Rightarrow> ('l, 'f) sys \<Rightarrow> ('l, 'f) sys option" where
  "exec [] s = Some s"
| "exec (l # ls) s = (case step l s of None \<Rightarrow> None | Some s' \<Rightarrow> exec ls s')"

section \<open>Invariants of the transition system\<close>

text \<open>
  The invocations of \<open>executeFn\<close> that have been launched and have not completed: the
  goroutine of the immediate execution while it is created or running, and the call in
  the loop while it runs.
\<close>

fun pending :: "goroutine \<Rightarrow> nat" where
  "pending Ready = 1"
| "pending Running = 1"
| "pending g = 0"

fun inline :: "control \<Rightarrow> nat" where
  "inline Ticking = 1"
| "inline c = 0"

definition inflight :: "('l, 'f) sys \<Rightarrow> nat" where
  "inflight s = pending (imm s) + inline (pc s)"

definition stop_ok :: "('l, 'f) sys \<Rightarrow> bool" where
  "stop_ok s \<longleftrightarrow>
     (stopCh (job s) = Closed \<longleftrightarrow> stopOnce (job s)) \<and>
     closes s = (if stopCh (job s) = Closed then 1 else 0) \<and>
     set (stopRets s) \<subseteq> {None}"

definition wg_ok :: "('l, 'f) sys \<Rightarrow> bool" where
  "wg_ok s \<longleftrightarrow> (pc s \<noteq> Panicked \<longrightarrow> wg (job s) = int (inflight s)) \<and>
     (pc s = NotStarted \<longrightarrow> imm s = NoGo) \<and>
     (\<not> executeImmediate (job s) \<longrightarrow> imm s = NoGo) \<and>
     (executeImmediate (job s) \<and> pc s \<noteq> NotStarted \<longrightarrow> imm s \<noteq> NoGo)"

definition calls_ok :: "('l, 'f) sys \<Rightarrow> bool" where
  "calls_ok s \<longleftrightarrow>
     immCalls s = (case imm s of Running \<Rightarrow> 1 | Finished \<Rightarrow> 1 | _ \<Rightarrow> 0) \<and>
     immReturns s = (case imm s of Finished \<Rightarrow> 1 | _ \<Rightarrow> 0) \<and>
     (pc s \<noteq> Panicked \<longrightarrow> tickCalls s = tickReturns s + inline (pc s)) \<and>
     tickReturns s \<le> tickCalls s \<and> tickCalls s \<le> Suc (tickReturns s)"

definition ticker_ok :: "('l, 'f) sys \<Rightarrow> bool" where
  "ticker_ok s \<longleftrightarrow>
     tickCalls s + tickerC s \<le> fired s \<and>
     tickerC s \<le> ticker_cap \<and>
     ((pc s = NotStarted \<or> pc s = Spawned) \<longrightarrow> fired s = 0)"

definition cause_ok :: "('l, 'f) sys \<Rightarrow> bool" where
  "cause_ok s \<longleftrightarrow>
     (pc s = Waiting ByCtx \<longrightarrow> ctxErr s \<noteq> None) \<and>
     (pc s = Waiting ByStop \<longrightarrow> stopCh (job s) = Closed) \<and>
     (\<forall>r. pc s = Returned ByCtx r \<longrightarrow> r = ctxErr s \<and> ctxErr s \<noteq> None) \<and>
     (\<forall>r. pc s = Returned ByStop r \<longrightarrow> r = None \<and> stopCh (job s) = Closed)"

definition join_ok :: "('l, 'f) sys \<Rightarrow> bool" where
  "join_ok s \<longleftrightarrow> (\<forall>c r. pc s = Returned c r \<longrightarrow> pending (imm s) = 0)"

definition panic_ok :: "('l, 'f) sys \<Rightarrow> bool" where
  "panic_ok s \<longleftrightarrow>
     (pc s = Panicked \<longrightarrow> NewTicker_panics (interval (job s)) \<or> executeFn (job s) = None)"

definition wf :: "('l, 'f) sys \<Rightarrow> bool" where
  "wf s \<longleftrightarrow> stop_ok s \<and> wg_ok s \<and> calls_ok s \<and> ticker_ok s \<and> cause_ok s \<and> join_ok s \<and> panic_ok s"

definition config :: "('l, 'f) TickerJob \<Rightarrow> string \<times> 'l helper \<times> 64 word \<times> bool \<times> 'f option" where
  "config j = (name j, log j, interval j, executeImmediate j, executeFn j)"

definition running :: "('l, 'f) sys \<Rightarrow> nat" where
  "running s = (immCalls s - immReturns s) + (tickCalls s - tickReturns s)"

definition triggered :: "('l, 'f) sys \<Rightarrow> nat" where
  "triggered s = (case imm s of NoGo \<Rightarrow> 0 | _ \<Rightarrow> 1) + tickCalls s"

section \<open>Infinite runs and fairness\<close>





fun grank :: "goroutine \<Rightarrow> nat" where
  "grank NoGo = 0"
| "grank Ready = 1"
| "grank Running = 2"
| "grank Finished = 3"


section \<open>Preservation of the invariants\<close>

lemma stop_ok_act: "stop_ok s \<Longrightarrow> act l s = Some s' \<Longrightarrow> stop_ok s'"
  by (cases l)
     (auto simp: stop_ok_def Stop_def close_def set_wg_def
           split: if_splits option.splits chan.splits control.splits)

lemma Stop_no_panic: "stop_ok s \<Longrightarrow> Stop (job s) \<noteq> None"
  by (auto simp: stop_ok_def Stop_def close_def split: chan.splits)

lemma act_WaitReturn:
  "act WaitReturn s = Some s' \<longleftrightarrow>
     (\<exists>c. pc s = Waiting c \<and> wg (job s) = 0 \<and>
          s' = s\<lparr>pc := Returned c (case c of ByCtx \<Rightarrow> ctxErr s | ByStop \<Rightarrow> None)\<rparr>)"
  by (cases "pc s") auto

lemma act_CallStop:
  "stop_ok s \<Longrightarrow> act CallStop s = Some s' \<longleftrightarrow>
     s' = s\<lparr>job := (job s)\<lparr>stopCh := Closed, stopOnce := True\<rparr>,
            closes := 1, stopRets := stopRets s @ [None]\<rparr>"
  by (cases "stopCh (job s)") (auto simp: stop_ok_def Stop_def close_def)

lemma wg_ok_act: "wg_ok s \<Longrightarrow> stop_ok s \<Longrightarrow> pc s \<noteq> Panicked \<Longrightarrow> act l s = Some s' \<Longrightarrow> wg_ok s'"
proof (cases l)
  case CallStop
  then show "wg_ok s \<Longrightarrow> stop_ok s \<Longrightarrow> pc s \<noteq> Panicked \<Longrightarrow> act l s = Some s' \<Longrightarrow> wg_ok s'"
    by (simp add: act_CallStop wg_ok_def inflight_def del: act.simps)
next
  case WaitReturn
  then show "wg_ok s \<Longrightarrow> stop_ok s \<Longrightarrow> pc s \<noteq> Panicked \<Longrightarrow> act l s = Some s' \<Longrightarrow> wg_ok s'"
    by (auto simp add: act_WaitReturn wg_ok_def inflight_def simp del: act.simps)
qed (auto simp: wg_ok_def inflight_def wg_Add_def wg_Done_def set_wg_def
           split: if_splits option.splits)

lemma calls_ok_act:
  assumes "calls_ok s" "stop_ok s" "wg_ok s" "pc s \<noteq> Panicked" "act l s = Some s'"
  shows "calls_ok s'"
proof (cases l)
  case CallStop
  with assms show ?thesis
    by (simp add: act_CallStop calls_ok_def del: act.simps)
next
  case WaitReturn
  with assms show ?thesis
    by (auto simp add: act_WaitReturn calls_ok_def simp del: act.simps)
qed (use assms in \<open>auto simp: calls_ok_def wg_ok_def set_wg_def split: if_splits option.splits\<close>)

lemma ticker_ok_act:
  assumes "ticker_ok s" "stop_ok s" "pc s \<noteq> Panicked" "act l s = Some s'"
  shows "ticker_ok s'"
proof (cases l)
  case CallStop
  with assms show ?thesis
    by (simp add: act_CallStop ticker_ok_def del: act.simps)
next
  case WaitReturn
  with assms show ?thesis
    by (auto simp add: act_WaitReturn ticker_ok_def simp del: act.simps)
qed (use assms in \<open>auto simp: ticker_ok_def armed_def ticker_cap_def set_wg_def split: if_splits option.splits\<close>)

lemma cause_ok_act:
  assumes "cause_ok s" "stop_ok s" "wg_ok s" "pc s \<noteq> Panicked" "act l s = Some s'"
  shows "cause_ok s'"
proof (cases l)
  case CallStop
  with assms show ?thesis
    by (auto simp add: act_CallStop cause_ok_def simp del: act.simps)
next
  case WaitReturn
  with assms obtain c where c: "pc s = Waiting c" "wg (job s) = 0"
      "s' = s\<lparr>pc := Returned c (case c of ByCtx \<Rightarrow> ctxErr s | ByStop \<Rightarrow> None)\<rparr>"
    by (auto simp add: act_WaitReturn simp del: act.simps)
  with assms show ?thesis
    by (cases c) (simp_all add: cause_ok_def)
qed (use assms in \<open>auto simp: cause_ok_def set_wg_def split: if_splits option.splits\<close>)

lemma join_ok_act:
  assumes "join_ok s" "stop_ok s" "wg_ok s" "pc s \<noteq> Panicked" "act l s = Some s'"
  shows "join_ok s'"
proof (cases l)
  case CallStop
  with assms show ?thesis
    by (auto simp add: act_CallStop join_ok_def simp del: act.simps)
next
  case WaitReturn
  with assms show ?thesis
    by (auto simp add: act_WaitReturn join_ok_def wg_ok_def inflight_def simp del: act.simps)
qed (use assms in \<open>auto simp: join_ok_def set_wg_def split: if_splits option.splits\<close>)

lemma panic_ok_act:
  assumes "panic_ok s" "stop_ok s" "wg_ok s" "pc s \<noteq> Panicked" "act l s = Some s'"
  shows "panic_ok s'"
proof (cases l)
  case CallStop
  with assms show ?thesis
    by (simp add: act_CallStop panic_ok_def del: act.simps)
next
  case WaitReturn
  with assms show ?thesis
    by (auto simp add: act_WaitReturn panic_ok_def simp del: act.simps)
qed (use assms in \<open>auto simp: panic_ok_def wg_ok_def inflight_def wg_Add_def wg_Done_def set_wg_def split: if_splits option.splits\<close>)

lemma wf_boot: "wf (boot (newTickerJob nm iv lg fn im))"
  by (simp add: wf_def boot_def newTickerJob_def stop_ok_def wg_ok_def inflight_def calls_ok_def
        ticker_ok_def cause_ok_def join_ok_def panic_ok_def)

lemma wf_step: "wf s \<Longrightarrow> step l s = Some s' \<Longrightarrow> wf s'"
  unfolding wf_def step_def
  by (auto split: if_splits
           intro: stop_ok_act wg_ok_act calls_ok_act ticker_ok_act cause_ok_act join_ok_act panic_ok_act)

lemma wf_exec: "wf s \<Longrightarrow> exec ls s = Some s' \<Longrightarrow> wf s'"
proof (induction ls arbitrary: s)
  case Nil
  then show ?case by simp
next
  case (Cons l ls)
  then show ?case
    by (auto split: option.splits dest: wf_step)
qed

lemma config_act: "act l s = Some s' \<Longrightarrow> stop_ok s \<Longrightarrow> config (job s') = config (job s)"
proof (cases l)
  case CallStop
  then show "act l s = Some s' \<Longrightarrow> stop_ok s \<Longrightarrow> config (job s') = config (job s)"
    by (simp add: act_CallStop config_def del: act.simps)
next
  case WaitReturn
  then show "act l s = Some s' \<Longrightarrow> stop_ok s \<Longrightarrow> config (job s') = config (job s)"
    by (auto simp add: act_WaitReturn config_def simp del: act.simps)
qed (auto simp: config_def set_wg_def split: if_splits option.splits)

lemma config_exec: "wf s \<Longrightarrow> exec ls s = Some s' \<Longrightarrow> config (job s') = config (job s)"
proof (induction ls arbitrary: s)
  case Nil
  then show ?case by simp
next
  case (Cons l ls)
  from Cons.prems obtain s1 where s1: "step l s = Some s1" "exec ls s1 = Some s'"
    by (auto split: option.splits)
  from s1(1) Cons.prems(1) have "config (job s1) = config (job s)"
    by (auto simp: step_def wf_def split: if_splits dest: config_act)
  moreover from s1 Cons.prems(1) have "config (job s') = config (job s1)"
    by (auto intro: Cons.IH wf_step)
  ultimately show ?case by simp
qed

lemmas sys_eval = boot_def newTickerJob_def step_def Stop_def close_def wg_Add_def wg_Done_def
  set_wg_def armed_def ticker_cap_def NewTicker_panics_def

section \<open>The claims\<close>

text \<open>
  C10. \<open>Servers\<close>, the only accessor of the registry, returns the tasks the registry
  holds, in order. The registry struct has no field and holds no job, so every call
  returns the empty list, whatever the registry value.
\<close>

theorem Servers_returns_empty: "Servers r = [] \<and> length (Servers r) = 0"
  by (simp add: Servers_def)

text \<open>
  C8. \<open>newTickerJob\<close> validates nothing: for every name, every interval (zero and
  negative ones too), every action (\<open>nil\<close> too) and either flag it returns a job that
  holds exactly these parameters, with an open stop channel, an unfired once and a
  wait-group at zero. Its result type has no error component.
\<close>

theorem newTickerJob_holds_parameters:
  "name (newTickerJob nm iv lg fn im) = nm \<and>
   log (newTickerJob nm iv lg fn im) = NewHelper lg \<and>
   interval (newTickerJob nm iv lg fn im) = iv \<and>
   executeFn (newTickerJob nm iv lg fn im) = fn \<and>
   executeImmediate (newTickerJob nm iv lg fn im) = im \<and>
   stopCh (newTickerJob nm iv lg fn im) = Open \<and>
   stopOnce (newTickerJob nm iv lg fn im) = False \<and>
   wg (newTickerJob nm iv lg fn im) = 0"
  by (simp add: newTickerJob_def)

lemma closed_exec:
  "stop_ok s \<Longrightarrow> exec ls s = Some s' \<Longrightarrow>
     (stopCh (job s') = Closed \<longleftrightarrow> stopCh (job s) = Closed \<or> CallStop \<in> set ls) \<and>
     length (stopRets s') = length (stopRets s) + count_list ls CallStop"
proof (induction ls arbitrary: s)
  case Nil
  then show ?case by simp
next
  case (Cons l ls)
  from Cons.prems obtain s1 where s1: "pc s \<noteq> Panicked" "act l s = Some s1" "exec ls s1 = Some s'"
    by (auto simp: step_def split: option.splits if_splits)
  from s1(2) Cons.prems(1) have ok1: "stop_ok s1"
    by (rule stop_ok_act [rotated])
  have here: "(stopCh (job s1) = Closed \<longleftrightarrow> stopCh (job s) = Closed \<or> l = CallStop) \<and>
      length (stopRets s1) = length (stopRets s) + (if l = CallStop then 1 else 0)"
  proof (cases l)
    case CallStop
    with s1(2) Cons.prems(1) show ?thesis
      by (simp add: act_CallStop del: act.simps)
  next
    case WaitReturn
    with s1(2) show ?thesis
      by (auto simp add: act_WaitReturn simp del: act.simps)
  qed (use s1(2) in \<open>auto simp: set_wg_def split: if_splits option.splits\<close>)
  from Cons.IH [OF ok1 s1(3)] here show ?case
    by auto
qed

text \<open>
  C4. In every state a job can reach, under any interleaving of calls of \<open>Stop\<close> with
  the steps of \<open>Start\<close> (before it, during it, after it): every call of \<open>Stop\<close> made
  so far has returned \<open>nil\<close>, each call made has returned, the next call does not
  panic and returns \<open>nil\<close> too, \<open>close(j.stopCh)\<close> has run exactly once if \<open>Stop\<close> was
  called at all (and never otherwise), and a call after the first leaves the job as it is.
\<close>

theorem Stop_idempotent:
  assumes "exec ls (boot (newTickerJob nm iv lg fn im)) = Some s"
  shows "set (stopRets s) \<subseteq> {None} \<and>
         length (stopRets s) = count_list ls CallStop \<and>
         Stop (job s) = Some ((job s)\<lparr>stopCh := Closed, stopOnce := True\<rparr>, None) \<and>
         (pc s \<noteq> Panicked \<longrightarrow> (\<exists>s'. step CallStop s = Some s' \<and> pc s' = pc s)) \<and>
         closes s = (if CallStop \<in> set ls then 1 else 0) \<and>
         (stopCh (job s) = Closed \<longleftrightarrow> CallStop \<in> set ls) \<and>
         (CallStop \<in> set ls \<longrightarrow> Stop (job s) = Some (job s, None))"
proof -
  have w: "wf s"
    using wf_boot assms by (rule wf_exec)
  then have ok: "stop_ok s"
    by (simp add: wf_def)
  have b: "stop_ok (boot (newTickerJob nm iv lg fn im))"
    using wf_boot [of nm iv lg fn im] by (simp add: wf_def)
  from closed_exec [OF b assms]
  have c: "stopCh (job s) = Closed \<longleftrightarrow> CallStop \<in> set ls"
    and n: "length (stopRets s) = count_list ls CallStop"
    by (simp_all add: boot_def newTickerJob_def)
  have st: "Stop (job s) = Some ((job s)\<lparr>stopCh := Closed, stopOnce := True\<rparr>, None)"
    using ok by (cases "stopCh (job s)") (auto simp: stop_ok_def Stop_def close_def)
  have same: "CallStop \<in> set ls \<longrightarrow> Stop (job s) = Some (job s, None)"
    using ok c by (auto simp: stop_ok_def Stop_def)
  have en: "pc s \<noteq> Panicked \<longrightarrow> (\<exists>s'. step CallStop s = Some s' \<and> pc s' = pc s)"
    using st by (simp add: step_def)
  from ok c n st same en show ?thesis
    by (simp add: stop_ok_def)
qed

text \<open>Four calls of \<open>Stop\<close>: before \<open>Start\<close>, twice during it, and after it returned.\<close>

theorem Stop_idempotent_witness:
  "\<exists>s. exec [CallStop, StartEnter, CallStop, ArmTicker, CallStop, SelStop, WaitReturn, CallStop]
          (boot (newTickerJob ''job'' 1 () (Some ()) False)) = Some s \<and>
       stopRets s = [None, None, None, None] \<and> closes s = 1 \<and> stopCh (job s) = Closed \<and>
       Stop (job s) = Some (job s, None)"
proof -
  let ?ls = "[CallStop, StartEnter, CallStop, ArmTicker, CallStop, SelStop, WaitReturn, CallStop]"
  let ?b = "boot (newTickerJob ''job'' 1 () (Some ()) False)"
  obtain s where s: "exec ?ls ?b = Some s"
    by (simp add: sys_eval)
  from Stop_idempotent [OF s]
  have "set (stopRets s) \<subseteq> {None}" "length (stopRets s) = 4" "closes s = 1"
    "stopCh (job s) = Closed" "Stop (job s) = Some (job s, None)"
    by auto
  moreover from this(1,2) have "stopRets s = [None, None, None, None]"
    by (auto simp: length_Suc_conv numeral_eq_Suc)
  ultimately show ?thesis
    using s by blast
qed

lemma exec_append: "exec (xs @ ys) s = (case exec xs s of None \<Rightarrow> None | Some s' \<Rightarrow> exec ys s')"
  by (induction xs arbitrary: s) (auto split: option.splits)

lemma cancel_exec:
  "exec ls s = Some s' \<Longrightarrow>
     (ctxErr s' \<noteq> None \<longleftrightarrow> ctxErr s \<noteq> None \<or> (\<exists>e. Cancel e \<in> set ls))"
proof (induction ls arbitrary: s)
  case Nil
  then show ?case by simp
next
  case (Cons l ls)
  from Cons.prems obtain s1 where s1: "pc s \<noteq> Panicked" "act l s = Some s1" "exec ls s1 = Some s'"
    by (auto simp: step_def split: option.splits if_splits)
  have here: "ctxErr s1 \<noteq> None \<longleftrightarrow> ctxErr s \<noteq> None \<or> (\<exists>e. l = Cancel e)"
  proof (cases l)
    case CallStop
    with s1(2) show ?thesis
      by (auto simp: Stop_def split: option.splits if_splits)
  next
    case WaitReturn
    with s1(2) show ?thesis
      by (auto simp add: act_WaitReturn simp del: act.simps)
  qed (use s1(2) in \<open>auto simp: set_wg_def split: if_splits option.splits\<close>)
  from Cons.IH [OF s1(3)] here show ?case
    by auto
qed

text \<open>
  C3. Whenever \<open>Start\<close> has returned, its result tells which branch of the \<open>select\<close>
  ended the loop: the result is \<open>nil\<close> exactly when the stop branch was taken, and it
  is the (non-nil) error of the context exactly when the context branch was taken; no
  other error is ever returned. The stop branch is taken only after a call of \<open>Stop\<close>,
  the context branch only after a cancellation.
\<close>

theorem Start_result_tells_cause:
  assumes "exec ls (boot (newTickerJob nm iv lg fn im)) = Some s"
    and "pc s = Returned c r"
  shows "(r = None \<longleftrightarrow> c = ByStop) \<and>
         ((\<exists>e. r = Some e \<and> ctxErr s = Some e) \<longleftrightarrow> c = ByCtx) \<and>
         (r = None \<or> r = ctxErr s) \<and>
         (c = ByStop \<longrightarrow> CallStop \<in> set ls) \<and>
         (c = ByCtx \<longrightarrow> (\<exists>e. Cancel e \<in> set ls))"
proof -
  have w: "wf s"
    using wf_boot assms(1) by (rule wf_exec)
  then have co: "cause_ok s"
    by (simp add: wf_def)
  have b: "stop_ok (boot (newTickerJob nm iv lg fn im))"
    using wf_boot [of nm iv lg fn im] by (simp add: wf_def)
  from closed_exec [OF b assms(1)]
  have cl: "stopCh (job s) = Closed \<longleftrightarrow> CallStop \<in> set ls"
    by (simp add: boot_def newTickerJob_def)
  from cancel_exec [OF assms(1)]
  have ca: "ctxErr s \<noteq> None \<longleftrightarrow> (\<exists>e. Cancel e \<in> set ls)"
    by (simp add: boot_def)
  show ?thesis
  proof (cases c)
    case ByCtx
    with co assms(2) have "r = ctxErr s" "ctxErr s \<noteq> None"
      by (simp_all add: cause_ok_def)
    with ByCtx ca show ?thesis by auto
  next
    case ByStop
    with co assms(2) have "r = None" "stopCh (job s) = Closed"
      by (simp_all add: cause_ok_def)
    with ByStop cl show ?thesis by auto
  qed
qed

text \<open>A run ended by cancellation returns \<open>Canceled\<close>, a run ended by \<open>Stop\<close> returns \<open>nil\<close>.\<close>

theorem Start_result_tells_cause_witness:
  "(\<exists>s. exec [StartEnter, ArmTicker, Cancel Canceled, SelCtx, WaitReturn]
          (boot (newTickerJob ''job'' 1 () (Some ()) False)) = Some s \<and>
        pc s = Returned ByCtx (Some Canceled) \<and> ctxErr s = Some Canceled) \<and>
   (\<exists>s. exec [StartEnter, ArmTicker, CallStop, SelStop, WaitReturn]
          (boot (newTickerJob ''job'' 1 () (Some ()) False)) = Some s \<and>
        pc s = Returned ByStop None)"
proof -
  let ?b = "boot (newTickerJob ''job'' 1 () (Some ()) False)"
  obtain s where s: "exec [StartEnter, ArmTicker, Cancel Canceled, SelCtx, WaitReturn] ?b = Some s"
    and p: "\<exists>r. pc s = Returned ByCtx r" and e: "ctxErr s = Some Canceled"
    by (simp add: sys_eval)
  from p obtain r where r: "pc s = Returned ByCtx r" ..
  from Start_result_tells_cause [OF s r] e have "r = Some Canceled"
    by auto
  with r s e have one: "\<exists>s. exec [StartEnter, ArmTicker, Cancel Canceled, SelCtx, WaitReturn] ?b = Some s \<and>
        pc s = Returned ByCtx (Some Canceled) \<and> ctxErr s = Some Canceled"
    by blast
  obtain t where t: "exec [StartEnter, ArmTicker, CallStop, SelStop, WaitReturn] ?b = Some t"
    and q: "\<exists>r. pc t = Returned ByStop r"
    by (simp add: sys_eval)
  from q obtain r' where r': "pc t = Returned ByStop r'" ..
  from Start_result_tells_cause [OF t r'] have "r' = None"
    by auto
  with r' t have two: "\<exists>s. exec [StartEnter, ArmTicker, CallStop, SelStop, WaitReturn] ?b = Some s \<and>
        pc s = Returned ByStop None"
    by blast
  from one two show ?thesis ..
qed

text \<open>
  C2, as stated, fails. With \<open>executeImmediate\<close> set, the goroutine of the immediate
  execution is still inside the action when the first tick is served, and the loop calls
  the action a second time: two invocations execute at once.
\<close>

theorem overlap_counterexample:
  "map_option (\<lambda>s. (imm s, pc s, running s))
     (exec [StartEnter, ArmTicker, ImmEnter, Elapse, SelTick]
        (boot (newTickerJob ''job'' 1 () (Some ()) True)))
   = Some (Running, Ticking, 2)"
  by (simp add: sys_eval running_def)

text \<open>
  C2, amended. In every reachable state at most one invocation made by the loop and at
  most one invocation made by the immediate goroutine are executing; so at most two
  invocations execute at once when \<open>executeImmediate\<close> is set, and at most one when it
  is not (the goroutine is then never created).
\<close>

theorem invocations_bounded:
  assumes "exec ls (boot (newTickerJob nm iv lg fn im)) = Some s"
  shows "tickReturns s \<le> tickCalls s \<and> tickCalls s \<le> tickReturns s + 1 \<and>
         immReturns s \<le> immCalls s \<and> immCalls s \<le> 1 \<and>
         running s \<le> (if im then 2 else 1) \<and>
         (\<not> im \<longrightarrow> immCalls s = 0)"
proof -
  have w: "wf s"
    using wf_boot assms(1) by (rule wf_exec)
  then have c: "calls_ok s" and g: "wg_ok s"
    by (simp_all add: wf_def)
  from config_exec [OF wf_boot assms]
  have im: "executeImmediate (job s) = im"
    by (simp add: config_def boot_def newTickerJob_def)
  from c have t: "tickReturns s \<le> tickCalls s" "tickCalls s \<le> tickReturns s + 1"
    by (simp_all add: calls_ok_def)
  from c have i: "immReturns s \<le> immCalls s" "immCalls s \<le> 1"
    by (cases "imm s"; simp add: calls_ok_def)+
  from g im have n: "\<not> im \<longrightarrow> imm s = NoGo"
    by (simp add: wg_ok_def)
  with c have z: "\<not> im \<longrightarrow> immCalls s = 0"
    by (auto simp: calls_ok_def)
  from t i z show ?thesis
    by (auto simp: running_def)
qed

text \<open>Without the immediate execution: one invocation runs while three ticks elapse.\<close>

theorem invocations_bounded_witness:
  "\<exists>s. exec [StartEnter, ArmTicker, Elapse, SelTick, Elapse, Elapse]
          (boot (newTickerJob ''job'' 1 () (Some ()) False)) = Some s \<and>
       tickCalls s = 1 \<and> tickReturns s = 0 \<and> running s = 1 \<and> immCalls s = 0"
proof -
  let ?b = "boot (newTickerJob ''job'' 1 () (Some ()) False)"
  obtain s where s: "exec [StartEnter, ArmTicker, Elapse, SelTick, Elapse, Elapse] ?b = Some s"
    and v: "tickCalls s = 1" "tickReturns s = 0"
    by (simp add: sys_eval)
  from invocations_bounded [OF s] v have "running s \<le> 1" "immCalls s = 0"
    by simp_all
  moreover from v have "running s \<ge> 1"
    by (simp add: running_def)
  ultimately show ?thesis
    using s v by auto
qed

lemma fired_exec:
  "stop_ok s \<Longrightarrow> exec ls s = Some s' \<Longrightarrow> fired s' = fired s + count_list ls Elapse"
proof (induction ls arbitrary: s)
  case Nil
  then show ?case by simp
next
  case (Cons l ls)
  from Cons.prems obtain s1 where s1: "pc s \<noteq> Panicked" "act l s = Some s1" "exec ls s1 = Some s'"
    by (auto simp: step_def split: option.splits if_splits)
  from s1(2) Cons.prems(1) have ok1: "stop_ok s1"
    by (rule stop_ok_act [rotated])
  have here: "fired s1 = fired s + (if l = Elapse then 1 else 0)"
  proof (cases l)
    case CallStop
    with s1(2) Cons.prems(1) show ?thesis
      by (simp add: act_CallStop del: act.simps)
  next
    case WaitReturn
    with s1(2) show ?thesis
      by (auto simp add: act_WaitReturn simp del: act.simps)
  qed (use s1(2) in \<open>auto simp: set_wg_def split: if_splits option.splits\<close>)
  from Cons.IH [OF ok1 s1(3)] here show ?case
    by auto
qed

lemma backlog_exec:
  "stop_ok s \<Longrightarrow> exec ls s = Some s' \<Longrightarrow> Elapse \<notin> set ls \<Longrightarrow>
     tickCalls s' + tickerC s' \<le> tickCalls s + tickerC s"
proof (induction ls arbitrary: s)
  case Nil
  then show ?case by simp
next
  case (Cons l ls)
  from Cons.prems obtain s1 where s1: "pc s \<noteq> Panicked" "act l s = Some s1" "exec ls s1 = Some s'"
    by (auto simp: step_def split: option.splits if_splits)
  from s1(2) Cons.prems(1) have ok1: "stop_ok s1"
    by (rule stop_ok_act [rotated])
  from Cons.prems(3) have l: "l \<noteq> Elapse" and ls: "Elapse \<notin> set ls"
    by auto
  have here: "tickCalls s1 + tickerC s1 \<le> tickCalls s + tickerC s"
  proof (cases l)
    case CallStop
    with s1(2) Cons.prems(1) show ?thesis
      by (simp add: act_CallStop del: act.simps)
  next
    case WaitReturn
    with s1(2) show ?thesis
      by (auto simp add: act_WaitReturn simp del: act.simps)
  qed (use s1(2) l in \<open>auto simp: set_wg_def split: if_splits option.splits\<close>)
  from Cons.IH [OF ok1 s1(3) ls] here show ?case
    by simp
qed

text \<open>
  C5. As long as the interval has not elapsed, no invocation comes from the loop, and
  the number of invocations triggered is decided by the flag: once \<open>Start\<close> has been
  entered it is exactly one with \<open>executeImmediate\<close> (the goroutine, created before the
  ticker is armed, so no interval is waited for) and zero without. The action has been
  called at most that often, and exactly once by the time \<open>Start\<close> has returned.
\<close>

theorem immediate_flag_decides_first_invocation:
  assumes "exec ls (boot (newTickerJob nm iv lg fn im)) = Some s"
    and "Elapse \<notin> set ls"
  shows "fired s = 0 \<and> tickCalls s = 0 \<and>
         triggered s = (if im \<and> pc s \<noteq> NotStarted then 1 else 0) \<and>
         immCalls s \<le> triggered s \<and>
         (im \<and> (\<exists>c r. pc s = Returned c r) \<longrightarrow> immCalls s = 1 \<and> immReturns s = 1)"
proof -
  have w: "wf s"
    using wf_boot assms(1) by (rule wf_exec)
  then have c: "calls_ok s" and g: "wg_ok s" and t: "ticker_ok s" and j: "join_ok s"
    by (simp_all add: wf_def)
  have b: "stop_ok (boot (newTickerJob nm iv lg fn im))"
    using wf_boot [of nm iv lg fn im] by (simp add: wf_def)
  from config_exec [OF wf_boot assms(1)]
  have im: "executeImmediate (job s) = im"
    by (simp add: config_def boot_def newTickerJob_def)
  from fired_exec [OF b assms(1)] assms(2) have f: "fired s = 0"
    by (simp add: boot_def)
  with t have tc: "tickCalls s = 0"
    by (simp add: ticker_ok_def)
  from g im have tr: "(case imm s of NoGo \<Rightarrow> 0 | _ \<Rightarrow> 1) = (if im \<and> pc s \<noteq> NotStarted then 1 else (0::nat))"
    by (cases "imm s") (auto simp: wg_ok_def)
  from c have ic: "immCalls s \<le> (case imm s of NoGo \<Rightarrow> 0 | _ \<Rightarrow> 1)"
    by (cases "imm s") (simp_all add: calls_ok_def)
  have ret: "im \<and> (\<exists>c r. pc s = Returned c r) \<longrightarrow> immCalls s = 1 \<and> immReturns s = 1"
  proof
    assume a: "im \<and> (\<exists>c r. pc s = Returned c r)"
    with j have "pending (imm s) = 0"
      by (auto simp: join_ok_def)
    moreover from a g im have "imm s \<noteq> NoGo"
      by (auto simp: wg_ok_def)
    ultimately have "imm s = Finished"
      by (cases "imm s") simp_all
    with c show "immCalls s = 1 \<and> immReturns s = 1"
      by (simp add: calls_ok_def)
  qed
  from f tc tr ic ret show ?thesis
    by (simp add: triggered_def)
qed

text \<open>Two runs in which no interval elapses, one for each value of the flag.\<close>

theorem immediate_flag_decides_first_invocation_witness:
  "(\<exists>s. exec [StartEnter, ArmTicker, ImmEnter, ImmReturn, CallStop, SelStop, WaitReturn]
          (boot (newTickerJob ''job'' 1 () (Some ()) True)) = Some s \<and>
        triggered s = 1 \<and> immCalls s = 1 \<and> tickCalls s = 0 \<and> fired s = 0) \<and>
   (\<exists>s. exec [StartEnter, ArmTicker, CallStop, SelStop, WaitReturn]
          (boot (newTickerJob ''job'' 1 () (Some ()) False)) = Some s \<and>
        triggered s = 0 \<and> immCalls s = 0 \<and> tickCalls s = 0 \<and> fired s = 0)"
proof -
  let ?l1 = "[StartEnter, ArmTicker, ImmEnter, ImmReturn, CallStop, SelStop, WaitReturn]"
  let ?l2 = "[StartEnter, ArmTicker, CallStop, SelStop, WaitReturn]"
  obtain s where s: "exec ?l1 (boot (newTickerJob ''job'' 1 () (Some ()) True)) = Some s"
    and p: "pc s = Returned ByStop None"
    by (simp add: sys_eval)
  have "Elapse \<notin> set ?l1" by simp
  from immediate_flag_decides_first_invocation [OF s this] p
  have one: "triggered s = 1 \<and> immCalls s = 1 \<and> tickCalls s = 0 \<and> fired s = 0"
    by simp
  obtain t where t: "exec ?l2 (boot (newTickerJob ''job'' 1 () (Some ()) False)) = Some t"
    by (simp add: sys_eval)
  have "Elapse \<notin> set ?l2" by simp
  from immediate_flag_decides_first_invocation [OF t this]
  have two: "triggered t = 0 \<and> immCalls t = 0 \<and> tickCalls t = 0 \<and> fired t = 0"
    by simp
  from s one t two show ?thesis
    by blast
qed

text \<open>
  C6. An invocation made for a tick runs inside the loop: the loop has at most one
  such invocation in progress, it is in progress exactly while the loop is at its call,
  and the loop serves no \<open>select\<close> case and does not return meanwhile. Ticks are not
  replayed: at most one tick waits in the channel however many intervals elapsed, every
  invocation has consumed an elapse of its own, and from any reachable state the loop
  makes at most one more invocation until the interval elapses again.
\<close>

theorem ticks_run_inline_without_replay:
  assumes "exec ls (boot (newTickerJob nm iv lg fn im)) = Some s"
    and "exec ls' s = Some s'"
    and "Elapse \<notin> set ls'"
  shows "tickReturns s \<le> tickCalls s \<and> tickCalls s \<le> tickReturns s + 1 \<and>
         (pc s = Ticking \<longrightarrow> tickCalls s = tickReturns s + 1) \<and>
         (pc s \<noteq> Panicked \<and> tickCalls s = tickReturns s + 1 \<longrightarrow> pc s = Ticking) \<and>
         (pc s = Ticking \<longrightarrow> step SelTick s = None \<and> step SelStop s = None \<and>
            step SelCtx s = None \<and> step WaitReturn s = None) \<and>
         tickerC s \<le> 1 \<and> tickCalls s + tickerC s \<le> fired s \<and>
         tickCalls s' \<le> tickCalls s + 1"
proof -
  have w: "wf s"
    using wf_boot assms(1) by (rule wf_exec)
  then have c: "calls_ok s" and t: "ticker_ok s" and o: "stop_ok s"
    by (simp_all add: wf_def)
  from c have a: "tickReturns s \<le> tickCalls s" "tickCalls s \<le> tickReturns s + 1"
    "pc s = Ticking \<longrightarrow> tickCalls s = tickReturns s + 1"
    by (auto simp: calls_ok_def)
  from c have a': "pc s \<noteq> Panicked \<and> tickCalls s = tickReturns s + 1 \<longrightarrow> pc s = Ticking"
    by (cases "pc s") (auto simp: calls_ok_def)
  have d: "pc s = Ticking \<longrightarrow> step SelTick s = None \<and> step SelStop s = None \<and>
            step SelCtx s = None \<and> step WaitReturn s = None"
    by (simp add: step_def)
  from t have e: "tickerC s \<le> 1" "tickCalls s + tickerC s \<le> fired s"
    by (simp_all add: ticker_ok_def ticker_cap_def)
  from backlog_exec [OF o assms(2,3)] e(1) have f: "tickCalls s' \<le> tickCalls s + 1"
    by simp
  from a a' d e f show ?thesis
    by blast
qed

text \<open>
  Four intervals elapse, three of them during a slow invocation; one more invocation
  follows and then the loop has to wait for the timer.
\<close>

theorem ticks_run_inline_without_replay_witness:
  "\<exists>s s'. exec [StartEnter, ArmTicker, Elapse, SelTick, Elapse, Elapse, Elapse]
            (boot (newTickerJob ''job'' 1 () (Some ()) False)) = Some s \<and>
          exec [TickReturn, SelTick, TickReturn] s = Some s' \<and>
          pc s = Ticking \<and> fired s = 4 \<and> tickCalls s = 1 \<and> tickCalls s' \<le> 2 \<and>
          step SelTick s' = None"
proof -
  let ?b = "boot (newTickerJob ''job'' 1 () (Some ()) False)"
  let ?l = "[StartEnter, ArmTicker, Elapse, SelTick, Elapse, Elapse, Elapse]"
  obtain s where s: "exec ?l ?b = Some s" and v: "pc s = Ticking" "fired s = 4" "tickCalls s = 1"
    and x: "\<exists>s'. exec [TickReturn, SelTick, TickReturn] s = Some s' \<and> step SelTick s' = None"
    by (simp add: sys_eval)
  from x obtain s' where s': "exec [TickReturn, SelTick, TickReturn] s = Some s'"
    and d: "step SelTick s' = None"
    by blast
  have "Elapse \<notin> set [TickReturn, SelTick, TickReturn]" by simp
  from ticks_run_inline_without_replay [OF s s' this] v have "tickCalls s' \<le> 2"
    by simp
  with s s' v d show ?thesis
    by blast
qed

lemma unarmed_act:
  assumes "NewTicker_panics (interval (job s))" "stop_ok s"
    and "pc s = NotStarted \<or> pc s = Spawned" "act l s = Some s'"
  shows "(pc s' = NotStarted \<or> pc s' = Spawned \<or> pc s' = Panicked) \<and>
         interval (job s') = interval (job s) \<and> fired s' = fired s"
proof (cases l)
  case CallStop
  with assms show ?thesis
    by (auto simp add: act_CallStop simp del: act.simps)
next
  case WaitReturn
  with assms show ?thesis
    by (auto simp add: act_WaitReturn simp del: act.simps)
qed (use assms in \<open>auto simp: set_wg_def armed_def split: if_splits option.splits\<close>)

lemma unarmed_exec:
  assumes "NewTicker_panics (interval (job s))" "stop_ok s"
    and "pc s = NotStarted \<or> pc s = Spawned \<or> pc s = Panicked" "exec ls s = Some s'"
  shows "(pc s' = NotStarted \<or> pc s' = Spawned \<or> pc s' = Panicked) \<and> fired s' = fired s"
  using assms
proof (induction ls arbitrary: s)
  case Nil
  then show ?case by simp
next
  case (Cons l ls)
  from Cons.prems(4) obtain s1 where s1: "pc s \<noteq> Panicked" "act l s = Some s1" "exec ls s1 = Some s'"
    by (auto simp: step_def split: option.splits if_splits)
  from s1(2) Cons.prems(2) have ok1: "stop_ok s1"
    by (rule stop_ok_act [rotated])
  from s1(1) Cons.prems(3) have "pc s = NotStarted \<or> pc s = Spawned"
    by simp
  from unarmed_act [OF Cons.prems(1,2) this s1(2)] Cons.prems(1)
  have "pc s1 = NotStarted \<or> pc s1 = Spawned \<or> pc s1 = Panicked"
    and "NewTicker_panics (interval (job s1))" and "fired s1 = fired s"
    by simp_all
  from Cons.IH [OF this(2) ok1 this(1) s1(3)] this(3) show ?case
    by simp
qed

text \<open>
  C9. With a non-positive interval \<open>Start\<close> never reaches its loop and never returns: all
  it can do after the \<open>if j.executeImmediate\<close> block is \<open>time.NewTicker\<close>, which panics.
  From then on the goroutine of the immediate execution exists exactly when the flag
  is set, and no tick is ever served.
\<close>

theorem nonpositive_interval_panics:
  assumes "sint iv \<le> 0"
    and "exec ls (boot (newTickerJob nm iv lg fn im)) = Some s"
  shows "(pc s = NotStarted \<or> pc s = Spawned \<or> pc s = Panicked) \<and>
         (pc s = Spawned \<longrightarrow> step ArmTicker s = Some (s\<lparr>pc := Panicked\<rparr>)) \<and>
         (pc s \<noteq> NotStarted \<longrightarrow> (imm s \<noteq> NoGo \<longleftrightarrow> im)) \<and>
         tickCalls s = 0 \<and>
         (\<exists>s'. exec [StartEnter, ArmTicker] (boot (newTickerJob nm iv lg fn im)) = Some s' \<and>
               pc s' = Panicked \<and> (imm s' \<noteq> NoGo \<longleftrightarrow> im))"
proof -
  let ?b = "boot (newTickerJob nm iv lg fn im)"
  have w: "wf s"
    using wf_boot assms(2) by (rule wf_exec)
  then have g: "wg_ok s" and t: "ticker_ok s" and c: "calls_ok s"
    by (simp_all add: wf_def)
  have b: "stop_ok ?b"
    using wf_boot [of nm iv lg fn im] by (simp add: wf_def)
  from config_exec [OF wf_boot assms(2)]
  have cf: "executeImmediate (job s) = im" "interval (job s) = iv"
    by (simp_all add: config_def boot_def newTickerJob_def)
  have p: "NewTicker_panics (interval (job ?b))"
    using assms(1) by (simp add: NewTicker_panics_def boot_def newTickerJob_def)
  have "pc ?b = NotStarted \<or> pc ?b = Spawned \<or> pc ?b = Panicked"
    by (simp add: boot_def)
  from unarmed_exec [OF p b this assms(2)]
  have pcs: "pc s = NotStarted \<or> pc s = Spawned \<or> pc s = Panicked" and f: "fired s = 0"
    by (simp_all add: boot_def)
  have arm: "pc s = Spawned \<longrightarrow> step ArmTicker s = Some (s\<lparr>pc := Panicked\<rparr>)"
    using assms(1) cf by (simp add: step_def NewTicker_panics_def)
  from g cf have launched: "pc s \<noteq> NotStarted \<longrightarrow> (imm s \<noteq> NoGo \<longleftrightarrow> im)"
    by (auto simp: wg_ok_def)
  from t f have tc: "tickCalls s = 0"
    by (simp add: ticker_ok_def)
  have ex: "\<exists>s'. exec [StartEnter, ArmTicker] ?b = Some s' \<and> pc s' = Panicked \<and> (imm s' \<noteq> NoGo \<longleftrightarrow> im)"
    using assms(1) by (cases im) (simp_all add: sys_eval)
  from pcs arm launched tc ex show ?thesis
    by blast
qed

text \<open>The interval \<open>-1\<close>: the immediate execution has begun when \<open>NewTicker\<close> panics.\<close>

theorem nonpositive_interval_panics_witness:
  "sint (- 1 :: 64 word) \<le> 0 \<and>
   (\<exists>s. exec [StartEnter, ImmEnter, ArmTicker] (boot (newTickerJob ''job'' (- 1) () (Some ()) True)) = Some s \<and>
        pc s = Panicked \<and> imm s \<noteq> NoGo \<and> tickCalls s = 0)"
proof -
  have h: "sint (- 1 :: 64 word) \<le> 0"
    by simp
  obtain s where s: "exec [StartEnter, ImmEnter, ArmTicker] (boot (newTickerJob ''job'' (- 1) () (Some ()) True)) = Some s"
    and p: "pc s = Panicked"
    by (simp add: sys_eval)
  from nonpositive_interval_panics [OF h s] p have "imm s \<noteq> NoGo" "tickCalls s = 0"
    by simp_all
  with h s p show ?thesis
    by blast
qed

lemma more_stops:
  "stopOnce (job s) \<Longrightarrow> pc s \<noteq> Panicked \<Longrightarrow>
     exec (replicate n CallStop) s = Some (s\<lparr>stopRets := stopRets s @ replicate n None\<rparr>)"
proof (induction n arbitrary: s)
  case 0
  then show ?case by simp
next
  case (Suc n)
  let ?s1 = "s\<lparr>stopRets := stopRets s @ [None]\<rparr>"
  from Suc.prems have "step CallStop s = Some ?s1"
    by (simp add: step_def Stop_def)
  moreover from Suc.prems have "exec (replicate n CallStop) ?s1 = Some (?s1\<lparr>stopRets := stopRets ?s1 @ replicate n None\<rparr>)"
    by (intro Suc.IH) simp_all
  ultimately show ?case
    by (simp add: replicate_app_Cons_same)
qed

lemma stops_on_boot:
  "exec (replicate (Suc n) CallStop) (boot (newTickerJob nm iv lg fn im)) =
     Some ((boot (newTickerJob nm iv lg fn im))
            \<lparr>job := (newTickerJob nm iv lg fn im)\<lparr>stopCh := Closed, stopOnce := True\<rparr>,
             closes := 1, stopRets := replicate (Suc n) None\<rparr>)"
proof -
  let ?b = "boot (newTickerJob nm iv lg fn im)"
  let ?s1 = "?b\<lparr>job := (newTickerJob nm iv lg fn im)\<lparr>stopCh := Closed, stopOnce := True\<rparr>,
             closes := 1, stopRets := [None]\<rparr>"
  have "step CallStop ?b = Some ?s1"
    by (simp add: sys_eval)
  moreover have "exec (replicate n CallStop) ?s1 = Some (?s1\<lparr>stopRets := stopRets ?s1 @ replicate n None\<rparr>)"
    by (intro more_stops) (simp_all add: boot_def)
  ultimately show ?thesis
    by simp
qed

text \<open>
  C7, as stated, fails for zero calls of \<open>Stop\<close>: \<open>Start\<close> reaches its \<open>select\<close> and
  blocks there, no case being ready; it has not returned and cannot.
\<close>

theorem stop_zero_times_counterexample:
  "map_option (\<lambda>s. (pc s, step SelStop s, step SelCtx s, step SelTick s, step WaitReturn s))
     (exec (replicate 0 CallStop @ [StartEnter, ArmTicker])
        (boot (newTickerJob ''job'' 1 () (Some ()) False)))
   = Some (Selecting, None, None, None, None)"
  by (simp add: sys_eval)

text \<open>
  C7, amended. One or more calls of \<open>Stop\<close> before \<open>Start\<close> only close the stop channel
  (and fire the once); every call returns \<open>nil\<close>. With a positive interval and an action
  that is not \<open>nil\<close>, as long as the context is not cancelled and the interval has not
  elapsed, \<open>Start\<close> then serves no tick, finds the stop case the only ready one at its
  first \<open>select\<close>, and can only return \<open>nil\<close>; it does return, after joining the
  immediate execution if the flag is set.
\<close>

theorem stop_before_start:
  assumes "0 < n" and "0 < sint iv"
    and "exec (replicate n CallStop @ ls) (boot (newTickerJob nm iv lg (Some f) im)) = Some s"
    and "Elapse \<notin> set ls" and "\<forall>e. Cancel e \<notin> set ls"
  shows "exec (replicate n CallStop) (boot (newTickerJob nm iv lg (Some f) im)) =
           Some ((boot (newTickerJob nm iv lg (Some f) im))
                  \<lparr>job := (newTickerJob nm iv lg (Some f) im)\<lparr>stopCh := Closed, stopOnce := True\<rparr>,
                   closes := 1, stopRets := replicate n None\<rparr>) \<and>
         tickCalls s = 0 \<and> pc s \<noteq> Ticking \<and> pc s \<noteq> Panicked \<and>
         (pc s = Selecting \<longrightarrow> step SelStop s = Some (s\<lparr>pc := Waiting ByStop\<rparr>) \<and>
            step SelCtx s = None \<and> step SelTick s = None) \<and>
         (\<forall>c r. pc s = Returned c r \<longrightarrow> c = ByStop \<and> r = None) \<and>
         (\<exists>s'. exec (replicate n CallStop @ [StartEnter, ArmTicker, SelStop] @
                      (if im then [ImmEnter, ImmReturn] else []) @ [WaitReturn])
                  (boot (newTickerJob nm iv lg (Some f) im)) = Some s' \<and>
               pc s' = Returned ByStop None \<and> tickCalls s' = 0 \<and>
               immCalls s' = (if im then 1 else 0))"
proof -
  let ?j = "newTickerJob nm iv lg (Some f) im"
  let ?b = "boot ?j"
  let ?s1 = "?b\<lparr>job := ?j\<lparr>stopCh := Closed, stopOnce := True\<rparr>, closes := 1,
               stopRets := replicate n None\<rparr>"
  from assms(1) obtain k where k: "n = Suc k"
    by (cases n) simp_all
  have a: "exec (replicate n CallStop) ?b = Some ?s1"
    unfolding k by (rule stops_on_boot)
  have w: "wf s"
    using wf_boot assms(3) by (rule wf_exec)
  then have c: "calls_ok s" and t: "ticker_ok s" and co: "cause_ok s" and pa: "panic_ok s"
    by (simp_all add: wf_def)
  have b: "stop_ok ?b"
    using wf_boot [of nm iv lg "Some f" im] by (simp add: wf_def)
  from config_exec [OF wf_boot assms(3)]
  have cf: "interval (job s) = iv" "executeFn (job s) = Some f"
    by (simp_all add: config_def boot_def newTickerJob_def)
  from fired_exec [OF b assms(3)] assms(4) have f0: "fired s = 0"
    by (simp add: boot_def)
  with t have tc: "tickCalls s = 0" and tk: "tickerC s = 0"
    by (simp_all add: ticker_ok_def)
  from cancel_exec [OF assms(3)] assms(5) have ce: "ctxErr s = None"
    by (simp add: boot_def)
  from closed_exec [OF b assms(3)] assms(1) have cl: "stopCh (job s) = Closed"
    by simp
  from pa cf assms(2) have np: "pc s \<noteq> Panicked"
    by (auto simp: panic_ok_def NewTicker_panics_def)
  with c tc have nt: "pc s \<noteq> Ticking"
    by (auto simp: calls_ok_def)
  from cl ce tk have sel: "pc s = Selecting \<longrightarrow> step SelStop s = Some (s\<lparr>pc := Waiting ByStop\<rparr>) \<and>
            step SelCtx s = None \<and> step SelTick s = None"
    by (simp add: step_def)
  have ret: "\<forall>c r. pc s = Returned c r \<longrightarrow> c = ByStop \<and> r = None"
  proof (intro allI impI)
    fix c r
    assume "pc s = Returned c r"
    with co ce show "c = ByStop \<and> r = None"
      by (cases c) (auto simp: cause_ok_def)
  qed
  have ex: "\<exists>s'. exec (replicate n CallStop @ [StartEnter, ArmTicker, SelStop] @
                      (if im then [ImmEnter, ImmReturn] else []) @ [WaitReturn]) ?b = Some s' \<and>
               pc s' = Returned ByStop None \<and> tickCalls s' = 0 \<and>
               immCalls s' = (if im then 1 else 0)"
    using assms(2) a
    by (cases im) (simp_all add: exec_append, simp_all add: sys_eval)
  from a tc nt np sel ret ex show ?thesis
    by blast
qed

text \<open>Three calls of \<open>Stop\<close>, then \<open>Start\<close> with an immediate execution.\<close>

theorem stop_before_start_witness:
  "\<exists>s. exec (replicate 3 CallStop @ [StartEnter, ArmTicker, SelStop, ImmEnter, ImmReturn, WaitReturn])
          (boot (newTickerJob ''job'' 1 () (Some ()) True)) = Some s \<and>
       pc s = Returned ByStop None \<and> tickCalls s = 0"
proof -
  let ?ls = "[StartEnter, ArmTicker, SelStop, ImmEnter, ImmReturn, WaitReturn]"
  obtain s where s: "exec (replicate 3 CallStop @ ?ls) (boot (newTickerJob ''job'' 1 () (Some ()) True)) = Some s"
    and p: "\<exists>c r. pc s = Returned c r"
    by (simp add: sys_eval numeral_eq_Suc)
  have h: "(0::nat) < 3" "0 < sint (1 :: 64 word)" "Elapse \<notin> set ?ls" "\<forall>e. Cancel e \<notin> set ?ls"
    by simp_all
  from stop_before_start [OF h(1,2) s h(3,4)] p have "pc s = Returned ByStop None" "tickCalls s = 0"
    by auto
  with s show ?thesis
    by blast
qed

section \<open>Termination of Start\<close>










lemma grank_cases:
  "grank g = 0 \<longleftrightarrow> g = NoGo"
  "grank g = 1 \<longleftrightarrow> g = Ready"
  "grank g = 2 \<longleftrightarrow> g = Running"
  "grank g = 3 \<longleftrightarrow> g = Finished"
  "grank g \<le> 3"
  by (cases g; simp)+

































end
